theory Spec2Isabelle
  imports Main
begin

section \<open>Reversi: the board of \<^verbatim>\<open>lib/board.js\<close>\<close>

text \<open>
  The program state is the \<^verbatim>\<open>Board\<close> object's \<^verbatim>\<open>grid\<close> (an array of rows, each cell
  \<^verbatim>\<open>null\<close> or a reference to a \<^verbatim>\<open>Piece\<close> object) together with the store of the
  \<^verbatim>\<open>Piece\<close> objects themselves. A reference is the index of the object in the store,
  \<^verbatim>\<open>null\<close> is \<open>None\<close>. Coordinates are JavaScript numbers holding integers; they go
  negative in \<^verbatim>\<open>next_pos\<close>, so they are \<open>int\<close>.
\<close>

subsection \<open>Pieces\<close>

text \<open>
  Modelled from the spec: \<^verbatim>\<open>lib/piece.js\<close> (the \<^verbatim>\<open>Piece\<close> class required by
  \<^verbatim>\<open>board.js\<close>) is missing. The spec gives a piece one of two colors, "white" and
  "black" (no other value is a valid color), set by the constructor and toggled by
  \<^verbatim>\<open>flip\<close>.
\<close>

datatype color = White | Black

record piece =
  piece_color :: color

type_synonym ref = nat
type_synonym pos = "int \<times> int"

record board =
  grid :: "ref option list list"
  heap :: "piece list"

datatype error = NotValidPos | InvalidMove | TypeError

text \<open>
  A call returns a value or throws, and leaves a state behind; \<open>None\<close> is a call that
  never returns. The \<^verbatim>\<open>this\<close>/\<^verbatim>\<open>board\<close> argument of the source is the last argument
  of every function here.
\<close>

type_synonym 'a outcome = "((error + 'a) \<times> board) option"

definition ret :: "'a \<Rightarrow> board \<Rightarrow> 'a outcome" where
  "ret x b = Some (Inr x, b)"

definition throw :: "error \<Rightarrow> board \<Rightarrow> 'a outcome" where
  "throw e b = Some (Inl e, b)"

definition bnd :: "'a outcome \<Rightarrow> ('a \<Rightarrow> board \<Rightarrow> 'b outcome) \<Rightarrow> 'b outcome" where
  "bnd m k = (case m of
       None \<Rightarrow> None
     | Some (Inl e, b) \<Rightarrow> Some (Inl e, b)
     | Some (Inr x, b) \<Rightarrow> k x b)"

text \<open>\<^verbatim>\<open>xs.forEach(f)\<close>; \<open>l\<close> holds the variables of the enclosing function that the
  callback assigns.\<close>

fun forEach :: "'a list \<Rightarrow> ('a \<Rightarrow> 'l \<Rightarrow> board \<Rightarrow> 'l outcome) \<Rightarrow> 'l \<Rightarrow> board \<Rightarrow> 'l outcome" where
  "forEach [] f l b = ret l b"
| "forEach (x # xs) f l b = bnd (f x l b) (\<lambda>l' b'. forEach xs f l' b')"

text \<open>Modelled from the spec: \<^verbatim>\<open>new Piece(color)\<close> of the missing \<^verbatim>\<open>lib/piece.js\<close>,
  a fresh object of that color.\<close>

definition new_Piece :: "color \<Rightarrow> board \<Rightarrow> ref outcome" where
  "new_Piece color b = ret (length (heap b)) (b\<lparr>heap := heap b @ [\<lparr>piece_color = color\<rparr>]\<rparr>)"

text \<open>Modelled from the spec: \<^verbatim>\<open>Piece.prototype.flip\<close> of the missing
  \<^verbatim>\<open>lib/piece.js\<close>, which toggles the color of the piece in place. Calling it on
  \<^verbatim>\<open>null\<close> is a TypeError.\<close>

fun opposite :: "color \<Rightarrow> color" where
  "opposite White = Black"
| "opposite Black = White"

definition flip :: "ref option \<Rightarrow> board \<Rightarrow> unit outcome" where
  "flip p b = (case p of
       None \<Rightarrow> throw TypeError b
     | Some r \<Rightarrow> ret () (b\<lparr>heap := (heap b)[r := \<lparr>piece_color = opposite (piece_color (heap b ! r))\<rparr>]\<rparr>))"

subsection \<open>The board\<close>

definition makeGrid :: "board \<Rightarrow> ref option list list outcome" where
  "makeGrid b =
     bnd (new_Piece White b) (\<lambda>w33 b1.
     bnd (new_Piece Black b1) (\<lambda>k34 b2.
     bnd (new_Piece Black b2) (\<lambda>k43 b3.
     bnd (new_Piece White b3) (\<lambda>w44 b4.
     ret [
       [None, None, None, None, None, None, None, None],
       [None, None, None, None, None, None, None, None],
       [None, None, None, None, None, None, None, None],
       [None, None, None, Some w33, Some k34, None, None, None],
       [None, None, None, Some k43, Some w44, None, None, None],
       [None, None, None, None, None, None, None, None],
       [None, None, None, None, None, None, None, None],
       [None, None, None, None, None, None, None, None]
     ] b4))))"

text \<open>\<^verbatim>\<open>new Board()\<close>, run where no piece exists yet.\<close>

definition Board :: "unit outcome" where
  "Board = bnd (makeGrid \<lparr>grid = [], heap = []\<rparr>) (\<lambda>g b. ret () (b\<lparr>grid := g\<rparr>))"

definition DIRS :: "(int \<times> int) list" where
  "DIRS = [
     ( 0,  1), ( 1,  1), ( 1,  0),
     ( 1, -1), ( 0, -1), (-1, -1),
     (-1,  0), (-1,  1)
   ]"

definition isValidPos :: "pos \<Rightarrow> board \<Rightarrow> bool outcome" where
  "isValidPos pos b =
     (let row = fst pos; col = snd pos
      in ret (row \<ge> 0 \<and> row \<le> 7 \<and> col \<ge> 0 \<and> col \<le> 7) b)"

definition getPiece :: "pos \<Rightarrow> board \<Rightarrow> ref option outcome" where
  "getPiece pos b =
     bnd (isValidPos pos b) (\<lambda>valid b1.
     if \<not> valid then throw NotValidPos b1
     else (let row = fst pos; col = snd pos
           in ret (grid b1 ! nat row ! nat col) b1))"

definition isMine :: "pos \<Rightarrow> color \<Rightarrow> board \<Rightarrow> bool outcome" where
  "isMine pos color b =
     bnd (getPiece pos b) (\<lambda>p b1.
     if p = None then ret False b1
     else bnd (getPiece pos b1) (\<lambda>q b2.
          case q of
            None \<Rightarrow> throw TypeError b2
          | Some r \<Rightarrow> ret (piece_color (heap b2 ! r) = color) b2))"

definition isOccupied :: "pos \<Rightarrow> board \<Rightarrow> bool outcome" where
  "isOccupied pos b = bnd (getPiece pos b) (\<lambda>p b1. ret (p \<noteq> None) b1)"

lemma bnd_mono [partial_function_mono]:
  assumes mf: "mono_option B" and mg: "\<And>y b. mono_option (\<lambda>f. C y b f)"
  shows "mono_option (\<lambda>f. bnd (B f) (\<lambda>y b. C y b f))"
proof (rule monotoneI)
  fix f g :: "'a \<Rightarrow> 'b option"
  assume fg: "fun_ord option_ord f g"
  from mf have 1: "option_ord (B f) (B g)"
    by (rule monotoneD) (rule fg)
  from mg have 2: "\<And>y b. option_ord (C y b f) (C y b g)"
    by (rule monotoneD) (rule fg)
  show "option_ord (bnd (B f) (\<lambda>y b. C y b f)) (bnd (B g) (\<lambda>y b. C y b g))"
  proof (cases "B f")
    case None
    then show ?thesis by (simp add: flat_ord_def bnd_def)
  next
    case (Some r)
    with 1 have "B g = Some r" by (simp add: flat_ord_def)
    with Some 2 show ?thesis
      by (cases r) (auto simp: bnd_def flat_ord_def split: sum.splits)
  qed
qed

text \<open>\<^verbatim>\<open>_positionsToFlip\<close>. The recursion has no bound of its own (with \<^verbatim>\<open>dir = [0, 0]\<close>
  on a piece of the other color it never returns), so not returning is the value \<open>None\<close>.\<close>

partial_function (option) positionsToFlip ::
  "pos \<Rightarrow> color \<Rightarrow> int \<times> int \<Rightarrow> ref option list \<Rightarrow> board \<Rightarrow> ref option list option outcome" where
  "positionsToFlip pos color dir piecesToFlip b =
     bnd (isValidPos pos b) (\<lambda>valid b1.
     if \<not> valid then ret None b1
     else
     bnd (isMine pos color b1) (\<lambda>mine b2.
     if mine then
       (if length piecesToFlip = 0 then ret None b2
        else ret (Some piecesToFlip) b2)
     else
     bnd (isOccupied pos b2) (\<lambda>occupied b3.
     if \<not> occupied then ret None b3
     else
     bnd (getPiece pos b3) (\<lambda>p b4.
     positionsToFlip (fst pos + fst dir, snd pos + snd dir) color dir (piecesToFlip @ [p]) b4))))"

declare positionsToFlip.simps [code]

definition validMove :: "pos \<Rightarrow> color \<Rightarrow> board \<Rightarrow> bool outcome" where
  "validMove pos color b =
     bnd (isValidPos pos b) (\<lambda>valid_pos b1.
     if \<not> valid_pos then ret False b1
     else
     bnd (isOccupied pos b1) (\<lambda>occupied b2.
     if occupied then ret False b2
     else
     forEach DIRS (\<lambda>dir valid b3.
       bnd (positionsToFlip (fst pos + fst dir, snd pos + snd dir) color dir [] b3) (\<lambda>pieces b4.
       ret (if pieces \<noteq> None then True else valid) b4)) False b2))"

text \<open>The two \<^verbatim>\<open>for\<close> loops of \<^verbatim>\<open>validMoves\<close>: the inner one over \<open>j\<close>, the outer one
  over \<open>i\<close>, both carrying \<^verbatim>\<open>moves\<close>.\<close>

function validMoves_cols :: "int \<Rightarrow> int \<Rightarrow> color \<Rightarrow> pos list \<Rightarrow> board \<Rightarrow> pos list outcome" where
  "validMoves_cols i j color moves b =
     (if j < 8 then
        bnd (validMove (i, j) color b) (\<lambda>v b1.
        validMoves_cols i (j + 1) color (if v then moves @ [(i, j)] else moves) b1)
      else ret moves b)"
  by pat_completeness auto
termination
  by (relation "measure (\<lambda>(i, j, color, moves, b). nat (8 - j))") auto

function validMoves_rows :: "int \<Rightarrow> color \<Rightarrow> pos list \<Rightarrow> board \<Rightarrow> pos list outcome" where
  "validMoves_rows i color moves b =
     (if i < 8 then
        bnd (validMoves_cols i 0 color moves b) (\<lambda>moves' b1.
        validMoves_rows (i + 1) color moves' b1)
      else ret moves b)"
  by pat_completeness auto
termination
  by (relation "measure (\<lambda>(i, color, moves, b). nat (8 - i))") auto

declare validMoves_cols.simps [simp del]
declare validMoves_rows.simps [simp del]

definition validMoves :: "color \<Rightarrow> board \<Rightarrow> pos list outcome" where
  "validMoves color b = validMoves_rows 0 color [] b"

definition hasMove :: "color \<Rightarrow> board \<Rightarrow> bool outcome" where
  "hasMove color b = bnd (validMoves color b) (\<lambda>moves b1. ret (length moves \<noteq> 0) b1)"

definition isOver :: "board \<Rightarrow> bool outcome" where
  "isOver b =
     bnd (hasMove White b) (\<lambda>w b1.
     if w then ret False b1
     else bnd (hasMove Black b1) (\<lambda>k b2. ret (\<not> k) b2))"

definition placePiece :: "pos \<Rightarrow> color \<Rightarrow> board \<Rightarrow> unit outcome" where
  "placePiece pos color b =
     bnd (validMove pos color b) (\<lambda>valid b1.
     if \<not> valid then throw InvalidMove b1
     else
     (let row = fst pos; col = snd pos in
     bnd (new_Piece color b1) (\<lambda>p b2.
     (let b3 = b2\<lparr>grid := (grid b2)[nat row := (grid b2 ! nat row)[nat col := Some p]]\<rparr> in
     bnd (forEach DIRS (\<lambda>dir pieces b4.
            bnd (positionsToFlip (fst pos + fst dir, snd pos + snd dir) color dir [] b4)
              (\<lambda>pieces_to_concat b5.
            case pieces_to_concat of
              None \<Rightarrow> ret pieces b5
            | Some ps \<Rightarrow> ret (pieces @ ps) b5)) [] b3) (\<lambda>pieces b6.
     bnd (forEach pieces (\<lambda>piece u b7. flip piece b7) () b6) (\<lambda>u b8.
     ret () b8))))))"

text \<open>\<^verbatim>\<open>print\<close> has an empty body.\<close>

definition print :: "board \<Rightarrow> unit outcome" where
  "print b = ret () b"

subsection \<open>Sequences of calls\<close>

text \<open>A driver calls the methods of one board one after another. \<open>perform\<close> is the state
  a call leaves, whether it returned or threw; \<open>run\<close> makes the calls of a list in
  order.\<close>

datatype call =
    GetPiece pos | HasMove color | IsMine pos color | IsOccupied pos | IsOver
  | IsValidPos pos | PlacePiece pos color | Print | ValidMove pos color | ValidMoves color

definition state_after :: "'a outcome \<Rightarrow> board option" where
  "state_after m = map_option snd m"

fun perform :: "call \<Rightarrow> board \<Rightarrow> board option" where
  "perform (GetPiece pos) b = state_after (getPiece pos b)"
| "perform (HasMove color) b = state_after (hasMove color b)"
| "perform (IsMine pos color) b = state_after (isMine pos color b)"
| "perform (IsOccupied pos) b = state_after (isOccupied pos b)"
| "perform IsOver b = state_after (isOver b)"
| "perform (IsValidPos pos) b = state_after (isValidPos pos b)"
| "perform (PlacePiece pos color) b = state_after (placePiece pos color b)"
| "perform Print b = state_after (print b)"
| "perform (ValidMove pos color) b = state_after (validMove pos color b)"
| "perform (ValidMoves color) b = state_after (validMoves color b)"

fun run :: "call list \<Rightarrow> board \<Rightarrow> board option" where
  "run [] b = Some b"
| "run (c # cs) b = (case perform c b of None \<Rightarrow> None | Some b' \<Rightarrow> run cs b')"

subsection \<open>What the calls compute\<close>

text \<open>The value of each call as a function of the state it is made in: \<open>on_board\<close> is
  the test of \<^verbatim>\<open>isValidPos\<close>, \<open>cell\<close> the read \<^verbatim>\<open>grid[row][col]\<close>, \<open>color_at\<close> the
  color of the piece in a cell, \<open>scan\<close> the list (or \<^verbatim>\<open>null\<close>) that a ray cast
  returns, \<open>legal\<close> the value of \<^verbatim>\<open>validMove\<close>. \<open>initial_board\<close> is the state that
  \<^verbatim>\<open>new Board()\<close> leaves.\<close>

definition on_board :: "pos \<Rightarrow> bool" where
  "on_board pos = (0 \<le> fst pos \<and> fst pos \<le> 7 \<and> 0 \<le> snd pos \<and> snd pos \<le> 7)"

definition cell :: "board \<Rightarrow> pos \<Rightarrow> ref option" where
  "cell b pos = grid b ! nat (fst pos) ! nat (snd pos)"

definition color_at :: "board \<Rightarrow> pos \<Rightarrow> color option" where
  "color_at b pos = map_option (\<lambda>r. piece_color (heap b ! r)) (cell b pos)"

definition initial_board :: board where
  "initial_board = (case Board of Some (_, b) \<Rightarrow> b | None \<Rightarrow> \<lparr>grid = [], heap = []\<rparr>)"

lemma bnd_ret [simp]: "bnd (ret x b) k = k x b"
  by (simp add: bnd_def ret_def)

lemma bnd_throw [simp]: "bnd (throw e b) k = throw e b"
  by (simp add: bnd_def throw_def)

lemma ret_eq [simp]: "ret x b = ret y b' \<longleftrightarrow> x = y \<and> b = b'"
  by (simp add: ret_def)

lemma ret_neq_throw [simp]: "ret x b \<noteq> throw e b'" "throw e b' \<noteq> ret x b"
  by (simp_all add: ret_def throw_def)

lemma throw_eq [simp]: "throw e b = throw e' b' \<longleftrightarrow> e = e' \<and> b = b'"
  by (simp add: throw_def)

lemma isValidPos_eq: "isValidPos pos b = ret (on_board pos) b"
  by (simp add: isValidPos_def on_board_def Let_def)

lemma getPiece_eq:
  "getPiece pos b = (if on_board pos then ret (cell b pos) b else throw NotValidPos b)"
  by (simp add: getPiece_def isValidPos_eq cell_def Let_def)

lemma isMine_eq:
  "isMine pos color b =
     (if on_board pos then ret (color_at b pos = Some color) b else throw NotValidPos b)"
  by (auto simp: isMine_def getPiece_eq color_at_def split: option.splits)

lemma isOccupied_eq:
  "isOccupied pos b = (if on_board pos then ret (cell b pos \<noteq> None) b else throw NotValidPos b)"
  by (simp add: isOccupied_def getPiece_eq)

lemma positionsToFlip_step:
  "positionsToFlip pos color dir acc b =
     (if \<not> on_board pos then ret None b
      else if color_at b pos = Some color then (if acc = [] then ret None b else ret (Some acc) b)
      else if cell b pos = None then ret None b
      else positionsToFlip (fst pos + fst dir, snd pos + snd dir) color dir (acc @ [cell b pos]) b)"
  by (subst positionsToFlip.simps) (simp add: isValidPos_eq isMine_eq isOccupied_eq getPiece_eq)

definition exit_dist :: "pos \<Rightarrow> int \<times> int \<Rightarrow> nat" where
  "exit_dist pos dir =
     nat (if 0 < fst dir then 8 - fst pos
          else if fst dir < 0 then fst pos + 1
          else if 0 < snd dir then 8 - snd pos
          else snd pos + 1)"

function scan :: "board \<Rightarrow> pos \<Rightarrow> color \<Rightarrow> int \<times> int \<Rightarrow> ref option list \<Rightarrow> ref option list option" where
  "scan b pos color dir acc =
     (if \<not> on_board pos \<or> dir = (0, 0) then None
      else if color_at b pos = Some color then (if acc = [] then None else Some acc)
      else if cell b pos = None then None
      else scan b (fst pos + fst dir, snd pos + snd dir) color dir (acc @ [cell b pos]))"
  by pat_completeness auto
termination
  by (relation "measure (\<lambda>(b, pos, color, dir, acc). exit_dist pos dir)")
     (auto simp: exit_dist_def on_board_def)

declare scan.simps [simp del]

lemma positionsToFlip_scan:
  "dir \<noteq> (0, 0) \<Longrightarrow> positionsToFlip pos color dir acc b = ret (scan b pos color dir acc) b"
proof (induction b pos color dir acc rule: scan.induct)
  case (1 b pos color dir acc)
  show ?case
    using 1 by (subst positionsToFlip_step, subst scan.simps) simp
qed

definition advance :: "pos \<Rightarrow> int \<times> int \<Rightarrow> pos" where
  "advance pos dir = (fst pos + fst dir, snd pos + snd dir)"

definition legal :: "board \<Rightarrow> pos \<Rightarrow> color \<Rightarrow> bool" where
  "legal b pos color =
     (on_board pos \<and> cell b pos = None \<and>
      list_ex (\<lambda>dir. scan b (advance pos dir) color dir [] \<noteq> None) DIRS)"

lemma forEach_valid:
  "(0, 0) \<notin> set ds \<Longrightarrow>
   forEach ds (\<lambda>dir valid b3.
       bnd (positionsToFlip (fst pos + fst dir, snd pos + snd dir) color dir [] b3) (\<lambda>pieces b4.
       ret (if pieces \<noteq> None then True else valid) b4)) valid b
   = ret (valid \<or> list_ex (\<lambda>dir. scan b (advance pos dir) color dir [] \<noteq> None) ds) b"
proof (induction ds arbitrary: valid)
  case Nil
  then show ?case by simp
next
  case (Cons d ds)
  then have "d \<noteq> (0, 0)" "(0, 0) \<notin> set ds" by auto
  then show ?case
    using Cons.IH by (auto simp: positionsToFlip_scan advance_def)
qed

lemma DIRS_nonzero: "(0, 0) \<notin> set DIRS"
  by (simp add: DIRS_def)

lemma validMove_eq: "validMove pos color b = ret (legal b pos color) b"
  using forEach_valid [OF DIRS_nonzero, of pos color False b]
  by (simp add: validMove_def isValidPos_eq isOccupied_eq legal_def)

lemma validMoves_cols_eq:
  "validMoves_cols i j color moves b =
     ret (moves @ filter (\<lambda>p. legal b p color) (map (Pair i) [j..7])) b"
proof (induction i j color moves b rule: validMoves_cols.induct)
  case (1 i j color moves b)
  show ?case
  proof (cases "j < 8")
    case True
    then have "[j..7] = j # [j + 1..7]" by (simp add: upto_rec1)
    with True 1 show ?thesis
      by (subst validMoves_cols.simps) (simp add: validMove_eq)
  next
    case False
    then show ?thesis by (subst validMoves_cols.simps) simp
  qed
qed

definition all_cells :: "pos list" where
  "all_cells = concat (map (\<lambda>i. map (Pair i) [0..7]) [0..7])"

lemma validMoves_rows_eq:
  "validMoves_rows i color moves b =
     ret (moves @ filter (\<lambda>p. legal b p color) (concat (map (\<lambda>i. map (Pair i) [0..7]) [i..7]))) b"
proof (induction i color moves b rule: validMoves_rows.induct)
  case (1 i color moves b)
  show ?case
  proof (cases "i < 8")
    case True
    then have "[i..7] = i # [i + 1..7]" by (simp add: upto_rec1)
    with True 1 show ?thesis
      by (subst validMoves_rows.simps) (simp add: validMoves_cols_eq)
  next
    case False
    then show ?thesis by (subst validMoves_rows.simps) simp
  qed
qed

lemma validMoves_eq:
  "validMoves color b = ret (filter (\<lambda>p. legal b p color) all_cells) b"
  by (simp add: validMoves_def validMoves_rows_eq all_cells_def)

lemma hasMove_eq:
  "hasMove color b = ret (list_ex (\<lambda>p. legal b p color) all_cells) b"
  by (simp add: hasMove_def validMoves_eq filter_empty_conv list_ex_iff)

lemma isOver_eq:
  "isOver b = ret (\<not> list_ex (\<lambda>p. legal b p White) all_cells \<and>
                   \<not> list_ex (\<lambda>p. legal b p Black) all_cells) b"
  by (simp add: isOver_def hasMove_eq)

lemma set_all_cells: "set all_cells = {p. on_board p}"
  by (auto simp: all_cells_def on_board_def)

lemma distinct_all_cells: "distinct all_cells"
  unfolding all_cells_def
  by (rule distinct_concat) (auto simp: distinct_map inj_on_def)

lemma Board_eq: "Board = ret () initial_board"
  by (simp add: initial_board_def Board_def makeGrid_def new_Piece_def ret_def bnd_def)

lemma initial_board_eq:
  "initial_board = \<lparr>grid = [
       [None, None, None, None, None, None, None, None],
       [None, None, None, None, None, None, None, None],
       [None, None, None, None, None, None, None, None],
       [None, None, None, Some 0, Some 1, None, None, None],
       [None, None, None, Some 2, Some 3, None, None, None],
       [None, None, None, None, None, None, None, None],
       [None, None, None, None, None, None, None, None],
       [None, None, None, None, None, None, None, None]],
     heap = [\<lparr>piece_color = White\<rparr>, \<lparr>piece_color = Black\<rparr>,
             \<lparr>piece_color = Black\<rparr>, \<lparr>piece_color = White\<rparr>]\<rparr>"
  by (simp add: initial_board_def Board_def makeGrid_def new_Piece_def ret_def bnd_def)

lemma scan_nonempty: "scan b pos color dir acc = Some ps \<Longrightarrow> ps \<noteq> []"
proof (induction b pos color dir acc rule: scan.induct)
  case (1 b pos color dir acc)
  from "1.prems" have
    "(if \<not> on_board pos \<or> dir = (0, 0) then None
      else if color_at b pos = Some color then (if acc = [] then None else Some acc)
      else if cell b pos = None then None
      else scan b (fst pos + fst dir, snd pos + snd dir) color dir (acc @ [cell b pos])) = Some ps"
    by (subst (asm) scan.simps)
  with "1.IH" show ?case
    by (auto split: if_splits)
qed

lemma legal_iff:
  "legal b pos color \<longleftrightarrow>
     isValidPos pos b = ret True b \<and> isOccupied pos b = ret False b \<and>
     (\<exists>dir\<in>set DIRS. \<exists>ps. ps \<noteq> [] \<and>
        positionsToFlip (fst pos + fst dir, snd pos + snd dir) color dir [] b = ret (Some ps) b)"
proof -
  have "\<And>dir. dir \<in> set DIRS \<Longrightarrow>
      (\<exists>ps. ps \<noteq> [] \<and> positionsToFlip (fst pos + fst dir, snd pos + snd dir) color dir [] b
                = ret (Some ps) b)
      \<longleftrightarrow> scan b (advance pos dir) color dir [] \<noteq> None"
    using DIRS_nonzero
    by (subst positionsToFlip_scan) (auto simp: advance_def dest: scan_nonempty)
  then show ?thesis
    by (auto simp: legal_def isValidPos_eq isOccupied_eq list_ex_iff)
qed

lemma legal_on_board: "legal b pos color \<Longrightarrow> pos \<in> set all_cells"
  by (simp add: legal_def set_all_cells)

lemma initial_empty_cells:
  "list_all (\<lambda>pos. pos \<notin> {(3, 3), (4, 4), (3, 4), (4, 3)} \<longrightarrow> cell initial_board pos = None)
     all_cells"
  by code_simp

lemma initial_empty_count:
  "length (filter (\<lambda>pos. cell initial_board pos = None) all_cells) = 60"
  by code_simp

subsection \<open>Rays\<close>

text \<open>\<open>ray_pos pos dir k\<close> is the position \<open>k\<close> steps from \<open>pos\<close> in direction
  \<open>dir\<close>. A ray cast that returns a list returns the cells of an initial stretch of its
  ray, all on the board and occupied, and ends on the board.\<close>

definition ray_pos :: "pos \<Rightarrow> int \<times> int \<Rightarrow> nat \<Rightarrow> pos" where
  "ray_pos pos dir k = (fst pos + int k * fst dir, snd pos + int k * snd dir)"

lemma ray_pos_0 [simp]: "ray_pos pos dir 0 = pos"
  by (simp add: ray_pos_def)

lemma ray_pos_Suc: "ray_pos pos dir (Suc k) = ray_pos (fst pos + fst dir, snd pos + snd dir) dir k"
  by (simp add: ray_pos_def algebra_simps)

lemma map_upt_Suc_shift: "map f [0..<Suc k] = f 0 # map (\<lambda>i. f (Suc i)) [0..<k]"
  by (simp add: upt_conv_Cons map_Suc_upt [symmetric] del: upt_Suc)

lemma scan_SomeD:
  "scan b pos color dir acc = Some ps \<Longrightarrow>
   \<exists>k. ps = acc @ map (\<lambda>i. cell b (ray_pos pos dir i)) [0..<k] \<and>
       (\<forall>i<k. on_board (ray_pos pos dir i) \<and> cell b (ray_pos pos dir i) \<noteq> None) \<and>
       on_board (ray_pos pos dir k)"
proof (induction b pos color dir acc arbitrary: ps rule: scan.induct)
  case (1 b pos color dir acc)
  let ?next = "(fst pos + fst dir, snd pos + snd dir)"
  from "1.prems" have unfolded:
    "(if \<not> on_board pos \<or> dir = (0, 0) then None
      else if color_at b pos = Some color then (if acc = [] then None else Some acc)
      else if cell b pos = None then None
      else scan b ?next color dir (acc @ [cell b pos])) = Some ps"
    by (subst (asm) scan.simps)
  show ?case
  proof (cases "color_at b pos = Some color")
    case True
    with unfolded have "ps = acc" "on_board pos"
      by (auto split: if_splits)
    then show ?thesis
      by (intro exI [of _ 0]) simp
  next
    case False
    with unfolded have ok: "on_board pos" "dir \<noteq> (0, 0)" "cell b pos \<noteq> None"
      and rec: "scan b ?next color dir (acc @ [cell b pos]) = Some ps"
      by (auto split: if_splits)
    from "1.IH" [OF _ False _ rec] ok obtain k where
      k: "ps = (acc @ [cell b pos]) @ map (\<lambda>i. cell b (ray_pos ?next dir i)) [0..<k]"
        "\<forall>i<k. on_board (ray_pos ?next dir i) \<and> cell b (ray_pos ?next dir i) \<noteq> None"
        "on_board (ray_pos ?next dir k)"
      by auto
    have "ps = acc @ map (\<lambda>i. cell b (ray_pos pos dir i)) [0..<Suc k]"
      unfolding map_upt_Suc_shift using k(1) by (simp add: ray_pos_Suc)
    moreover have "\<forall>i<Suc k. on_board (ray_pos pos dir i) \<and> cell b (ray_pos pos dir i) \<noteq> None"
    proof (intro allI impI)
      fix i assume "i < Suc k"
      then show "on_board (ray_pos pos dir i) \<and> cell b (ray_pos pos dir i) \<noteq> None"
        using ok k(2) by (cases i) (auto simp: ray_pos_Suc)
    qed
    moreover have "on_board (ray_pos pos dir (Suc k))"
      using k(3) by (simp add: ray_pos_Suc)
    ultimately show ?thesis
      by blast
  qed
qed

lemma ray_bound:
  assumes "on_board pos" and "dir \<in> set DIRS" and "on_board (ray_pos pos dir k)"
  shows "k \<le> 7"
  using assms by (auto simp: DIRS_def on_board_def ray_pos_def)

lemma scan_length:
  assumes "on_board pos" and "dir \<in> set DIRS"
    and "scan b (advance pos dir) color dir [] = Some ps"
  shows "length ps \<le> 6"
proof -
  from scan_SomeD [OF assms(3)] obtain k where
    k: "ps = map (\<lambda>i. cell b (ray_pos (advance pos dir) dir i)) [0..<k]"
      "on_board (ray_pos (advance pos dir) dir k)"
    by auto
  from k(2) have "on_board (ray_pos pos dir (Suc k))"
    by (simp add: ray_pos_Suc advance_def)
  with assms(1,2) have "Suc k \<le> 7"
    by (rule ray_bound)
  with k(1) show ?thesis by simp
qed

lemma ray_list:
  assumes "scan b (advance pos dir) color dir [] = Some ps"
  shows "\<exists>k. ps = map (\<lambda>i. cell b (ray_pos pos dir (Suc i))) [0..<k] \<and>
            (\<forall>i<k. on_board (ray_pos pos dir (Suc i)) \<and> cell b (ray_pos pos dir (Suc i)) \<noteq> None)"
  using scan_SomeD [OF assms] by (auto simp: ray_pos_Suc advance_def)

lemma ray_pos_inj:
  "dir \<in> set DIRS \<Longrightarrow> e \<in> set DIRS \<Longrightarrow> ray_pos pos dir (Suc i) = ray_pos pos e (Suc j) \<Longrightarrow>
   dir = e \<and> i = j"
  by (auto simp: DIRS_def ray_pos_def)

lemma ray_pos_neq_start: "dir \<in> set DIRS \<Longrightarrow> ray_pos pos dir (Suc i) \<noteq> pos"
  by (cases pos) (auto simp: DIRS_def ray_pos_def)

lemma scan_agree:
  "(\<And>i. on_board (ray_pos pos dir i) \<Longrightarrow>
        cell b' (ray_pos pos dir i) = cell b (ray_pos pos dir i) \<and>
        color_at b' (ray_pos pos dir i) = color_at b (ray_pos pos dir i)) \<Longrightarrow>
   scan b' pos color dir acc = scan b pos color dir acc"
proof (induction b pos color dir acc rule: scan.induct)
  case (1 b pos color dir acc)
  let ?next = "(fst pos + fst dir, snd pos + snd dir)"
  have here: "on_board pos \<Longrightarrow> cell b' pos = cell b pos \<and> color_at b' pos = color_at b pos"
    using "1.prems" [of 0] by simp
  have "scan b' ?next color dir (acc @ [cell b pos]) = scan b ?next color dir (acc @ [cell b pos])"
    if "on_board pos" "dir \<noteq> (0, 0)" "color_at b pos \<noteq> Some color" "cell b pos \<noteq> None"
  proof (rule "1.IH")
    show "\<not> (\<not> on_board pos \<or> dir = (0, 0))" using that by simp
    show "color_at b pos \<noteq> Some color" using that by simp
    show "cell b pos \<noteq> None" using that by simp
    show "cell b' (ray_pos ?next dir i) = cell b (ray_pos ?next dir i) \<and>
          color_at b' (ray_pos ?next dir i) = color_at b (ray_pos ?next dir i)"
      if "on_board (ray_pos ?next dir i)" for i
      using "1.prems" [of "Suc i"] that by (simp add: ray_pos_Suc)
  qed
  with here show ?case
    by (subst scan.simps, subst (2) scan.simps) auto
qed

text \<open>With \<^verbatim>\<open>dir = [0, 0]\<close> the scan stays where it is: on a piece of the other color it
  never returns.\<close>

lemma positionsToFlip_stuck_aux:
  "positionsToFlip pos color dir acc b = Some y \<Longrightarrow>
   \<not> (dir = (0, 0) \<and> on_board pos \<and> cell b pos \<noteq> None \<and> color_at b pos \<noteq> Some color)"
proof (rule positionsToFlip.raw_induct [where P = "\<lambda>pos color dir acc b y.
    \<not> (dir = (0, 0) \<and> on_board pos \<and> cell b pos \<noteq> None \<and> color_at b pos \<noteq> Some color)"])
  fix f :: "pos \<Rightarrow> color \<Rightarrow> int \<times> int \<Rightarrow> ref option list \<Rightarrow> board
             \<Rightarrow> ref option list option outcome"
    and pos color dir acc b y
  assume IH: "\<And>pos color dir acc b y. f pos color dir acc b = Some y \<Longrightarrow>
    \<not> (dir = (0, 0) \<and> on_board pos \<and> cell b pos \<noteq> None \<and> color_at b pos \<noteq> Some color)"
  assume body: "bnd (isValidPos pos b) (\<lambda>valid b1.
     if \<not> valid then ret None b1
     else
     bnd (isMine pos color b1) (\<lambda>mine b2.
     if mine then
       (if length acc = 0 then ret None b2
        else ret (Some acc) b2)
     else
     bnd (isOccupied pos b2) (\<lambda>occupied b3.
     if \<not> occupied then ret None b3
     else
     bnd (getPiece pos b3) (\<lambda>p b4.
     f (fst pos + fst dir, snd pos + snd dir) color dir (acc @ [p]) b4)))) = Some y"
  show "\<not> (dir = (0, 0) \<and> on_board pos \<and> cell b pos \<noteq> None \<and> color_at b pos \<noteq> Some color)"
  proof
    assume stuck: "dir = (0, 0) \<and> on_board pos \<and> cell b pos \<noteq> None \<and>
      color_at b pos \<noteq> Some color"
    with body have "f pos color dir (acc @ [cell b pos]) b = Some y"
      by (simp add: isValidPos_eq isMine_eq isOccupied_eq getPiece_eq)
    from IH [OF this] stuck show False
      by simp
  qed
qed assumption

lemma positionsToFlip_stuck:
  assumes "on_board pos" and "cell b pos \<noteq> None" and "color_at b pos \<noteq> Some color"
  shows "positionsToFlip pos color (0, 0) acc b = None"
proof (cases "positionsToFlip pos color (0, 0) acc b")
  case None
  then show ?thesis .
next
  case (Some y)
  from positionsToFlip_stuck_aux [OF this] assms show ?thesis
    by simp
qed

subsection \<open>Placing a piece\<close>

text \<open>\<open>flips_of\<close> is the list \<^verbatim>\<open>pieces\<close> that \<^verbatim>\<open>placePiece\<close> collects, \<open>toggle\<close>
  the effect of one \<^verbatim>\<open>flip\<close> on the store, \<open>place\<close> the state after the new piece has
  been created and written to the grid.\<close>

definition flips_of :: "board \<Rightarrow> pos \<Rightarrow> color \<Rightarrow> (int \<times> int) list \<Rightarrow> ref option list" where
  "flips_of b pos color ds =
     concat (map (\<lambda>dir. case scan b (advance pos dir) color dir [] of
                           None \<Rightarrow> [] | Some ps \<Rightarrow> ps) ds)"

lemma forEach_collect:
  "(0, 0) \<notin> set ds \<Longrightarrow>
   forEach ds (\<lambda>dir pieces b4.
       bnd (positionsToFlip (fst pos + fst dir, snd pos + snd dir) color dir [] b4)
         (\<lambda>pieces_to_concat b5.
            case pieces_to_concat of
              None \<Rightarrow> ret pieces b5
            | Some ps \<Rightarrow> ret (pieces @ ps) b5)) pieces b
   = ret (pieces @ flips_of b pos color ds) b"
proof (induction ds arbitrary: pieces)
  case Nil
  then show ?case by (simp add: flips_of_def)
next
  case (Cons d ds)
  then have "d \<noteq> (0, 0)" "(0, 0) \<notin> set ds" by auto
  then show ?case
    using Cons.IH
    by (cases "scan b (advance pos d) color d []")
       (simp_all add: positionsToFlip_scan advance_def flips_of_def)
qed

definition toggle :: "piece list \<Rightarrow> ref \<Rightarrow> piece list" where
  "toggle h r = h[r := \<lparr>piece_color = opposite (piece_color (h ! r))\<rparr>]"

lemma forEach_flip:
  "forEach (map Some rs) (\<lambda>piece u b7. flip piece b7) u b
     = ret () (b\<lparr>heap := foldl toggle (heap b) rs\<rparr>)"
proof (induction rs arbitrary: u b)
  case Nil
  then show ?case by simp
next
  case (Cons r rs)
  have "flip (Some r) b = ret () (b\<lparr>heap := toggle (heap b) r\<rparr>)"
    by (simp add: flip_def toggle_def)
  then show ?case
    by (simp add: Cons.IH)
qed

lemma flips_of_cells:
  assumes "x \<in> set (flips_of b pos color ds)" and "(0, 0) \<notin> set ds"
  shows "\<exists>dir i. dir \<in> set ds \<and> on_board (ray_pos pos dir (Suc i)) \<and>
           x = cell b (ray_pos pos dir (Suc i)) \<and> x \<noteq> None"
proof -
  from assms(1) obtain dir where dir1: "dir \<in> set ds"
    and x: "x \<in> set (case scan b (advance pos dir) color dir [] of None \<Rightarrow> [] | Some ps \<Rightarrow> ps)"
    by (auto simp: flips_of_def)
  then obtain ps where
    dir: "dir \<in> set ds" "scan b (advance pos dir) color dir [] = Some ps" "x \<in> set ps"
    by (cases "scan b (advance pos dir) color dir []") auto
  from scan_SomeD [OF dir(2)] obtain k where
    k: "ps = map (\<lambda>i. cell b (ray_pos (advance pos dir) dir i)) [0..<k]"
      "\<forall>i<k. on_board (ray_pos (advance pos dir) dir i) \<and>
             cell b (ray_pos (advance pos dir) dir i) \<noteq> None"
    by auto
  from dir(3) k(1) obtain i where "i < k" "x = cell b (ray_pos (advance pos dir) dir i)"
    by auto
  with k(2) have "on_board (ray_pos pos dir (Suc i))"
    "x = cell b (ray_pos pos dir (Suc i))" "x \<noteq> None"
    by (simp_all add: ray_pos_Suc advance_def)
  with dir(1) show ?thesis
    by blast
qed

lemma map_Some_the: "\<forall>x\<in>set xs. x \<noteq> None \<Longrightarrow> map Some (map the xs) = xs"
  by (induction xs) auto

definition place :: "board \<Rightarrow> pos \<Rightarrow> color \<Rightarrow> board" where
  "place b pos color =
     \<lparr>grid = (grid b)[nat (fst pos) := (grid b ! nat (fst pos))[nat (snd pos) := Some (length (heap b))]],
      heap = heap b @ [\<lparr>piece_color = color\<rparr>]\<rparr>"

lemma placePiece_eq:
  "placePiece pos color b =
     (if legal b pos color
      then ret () ((place b pos color)\<lparr>heap :=
             foldl toggle (heap (place b pos color))
               (map the (flips_of (place b pos color) pos color DIRS))\<rparr>)
      else throw InvalidMove b)"
proof (cases "legal b pos color")
  case False
  then show ?thesis
    by (simp add: placePiece_def validMove_eq)
next
  case True
  let ?b3 = "place b pos color"
  let ?fl = "flips_of ?b3 pos color DIRS"
  have "\<forall>x\<in>set ?fl. x \<noteq> None"
    using flips_of_cells [OF _ DIRS_nonzero] by blast
  then have fl: "map Some (map the ?fl) = ?fl"
    by (rule map_Some_the)
  have "forEach ?fl (\<lambda>piece u b7. flip piece b7) () ?b3
          = ret () (?b3\<lparr>heap := foldl toggle (heap ?b3) (map the ?fl)\<rparr>)"
    using forEach_flip [of "map the ?fl" "()" ?b3] by (simp only: fl)
  moreover have "b\<lparr>heap := heap b @ [\<lparr>piece_color = color\<rparr>],
      grid := (grid b)[nat (fst pos) := (grid b ! nat (fst pos))[nat (snd pos) := Some (length (heap b))]]\<rparr>
      = ?b3"
    by (simp add: place_def)
  ultimately show ?thesis
    using True forEach_collect [OF DIRS_nonzero, of pos color "[]" ?b3]
    by (simp add: placePiece_def validMove_eq new_Piece_def Let_def)
qed

lemma flips_of_Cons:
  "flips_of b pos color (d # ds) =
     (case scan b (advance pos d) color d [] of None \<Rightarrow> [] | Some ps \<Rightarrow> ps)
     @ flips_of b pos color ds"
  by (simp add: flips_of_def)

lemma toggle_length [simp]: "length (foldl toggle h rs) = length h"
  by (induction rs arbitrary: h) (simp_all add: toggle_def)

lemma toggle_nth:
  "distinct rs \<Longrightarrow> r < length h \<Longrightarrow>
   foldl toggle h rs ! r =
     (if r \<in> set rs then \<lparr>piece_color = opposite (piece_color (h ! r))\<rparr> else h ! r)"
proof (induction rs arbitrary: h)
  case Nil
  then show ?case by simp
next
  case (Cons x rs)
  from Cons.prems have "r < length (toggle h x)"
    by (simp add: toggle_def)
  with Cons.IH [of "toggle h x"] Cons.prems(1) have
    "foldl toggle (toggle h x) rs ! r =
       (if r \<in> set rs then \<lparr>piece_color = opposite (piece_color (toggle h x ! r))\<rparr>
        else toggle h x ! r)"
    by simp
  moreover have "toggle h x ! r =
      (if r = x then \<lparr>piece_color = opposite (piece_color (h ! r))\<rparr> else h ! r)"
    using Cons.prems(2) by (auto simp: toggle_def)
  ultimately show ?case
    using Cons.prems(1) by auto
qed

lemma distinct_DIRS: "distinct DIRS"
  by (simp add: DIRS_def)

lemma cell_heap_update [simp]: "cell (b\<lparr>heap := h\<rparr>) p = cell b p"
  by (simp add: cell_def)

lemma grid_place:
  "grid (place b pos color) =
     (grid b)[nat (fst pos) := (grid b ! nat (fst pos))[nat (snd pos) := Some (length (heap b))]]"
  by (simp add: place_def)

lemma nat_eq_on_board:
  "on_board p \<Longrightarrow> on_board q \<Longrightarrow> nat (fst p) = nat (fst q) \<Longrightarrow> nat (snd p) = nat (snd q) \<Longrightarrow> p = q"
  by (cases p, cases q) (auto simp: on_board_def)

lemma on_board_nat: "on_board p \<Longrightarrow> nat (fst p) < 8 \<and> nat (snd p) < 8"
  by (auto simp: on_board_def)

lemma cell_place_other:
  assumes "on_board q" and "on_board pos" and "q \<noteq> pos"
  shows "cell (place b pos color) q = cell b q"
proof (cases "nat (fst q) = nat (fst pos)")
  case False
  then show ?thesis by (simp add: cell_def place_def)
next
  case True
  with assms have "nat (snd q) \<noteq> nat (snd pos)"
    using nat_eq_on_board by blast
  with True show ?thesis
    by (cases "nat (fst pos) < length (grid b)")
       (simp_all add: cell_def place_def list_update_beyond)
qed

lemma cell_place_same:
  assumes "on_board pos" and "length (grid b) = 8" and "\<forall>row\<in>set (grid b). length row = 8"
  shows "cell (place b pos color) pos = Some (length (heap b))"
proof -
  from assms(1,2) have 1: "nat (fst pos) < length (grid b)"
    using on_board_nat [of pos] by simp
  then have "grid b ! nat (fst pos) \<in> set (grid b)"
    by simp
  with assms(1,3) have "nat (snd pos) < length (grid b ! nat (fst pos))"
    using on_board_nat [of pos] by simp
  with 1 show ?thesis
    by (simp add: cell_def place_def)
qed

lemma color_at_place_other:
  assumes "on_board q" and "on_board pos" and "q \<noteq> pos"
    and "\<forall>r. cell b q = Some r \<longrightarrow> r < length (heap b)"
  shows "color_at (place b pos color) q = color_at b q"
proof -
  have "cell (place b pos color) q = cell b q"
    using assms(1-3) by (rule cell_place_other)
  moreover have "heap (place b pos color) = heap b @ [\<lparr>piece_color = color\<rparr>]"
    by (simp add: place_def)
  ultimately show ?thesis
    using assms(4) by (cases "cell b q") (simp_all add: color_at_def nth_append)
qed

subsection \<open>Well-formed states\<close>

text \<open>The states of a board: the grid has 8 rows of 8 cells, every reference in the grid
  is to a piece of the store, and no piece is in two cells. \<^verbatim>\<open>new Board()\<close> leaves such
  a state and every call keeps it (\<open>wf_initial_board\<close>, \<open>run_wf\<close>).\<close>

definition wf_board :: "board \<Rightarrow> bool" where
  "wf_board b =
     (length (grid b) = 8 \<and> list_all (\<lambda>row. length row = 8) (grid b) \<and>
      list_all (\<lambda>p. case cell b p of
                  None \<Rightarrow> True
                | Some r \<Rightarrow> r < length (heap b) \<and>
                    list_all (\<lambda>q. cell b q = Some r \<longrightarrow> q = p) all_cells) all_cells)"

lemma wf_board_iff:
  "wf_board b \<longleftrightarrow>
     length (grid b) = 8 \<and> (\<forall>row\<in>set (grid b). length row = 8) \<and>
     (\<forall>p r. on_board p \<and> cell b p = Some r \<longrightarrow> r < length (heap b)) \<and>
     (\<forall>p q r. on_board p \<and> on_board q \<and> cell b p = Some r \<and> cell b q = Some r \<longrightarrow> p = q)"
  unfolding wf_board_def list_all_iff set_all_cells
  by (auto split: option.splits) blast+

lemma wf_initial_board: "wf_board initial_board"
  by code_simp

lemma scan_place:
  assumes wf: "wf_board b" and pos: "on_board pos" and dir: "dir \<in> set DIRS"
  shows "scan (place b pos color) (advance pos dir) color' dir acc
           = scan b (advance pos dir) color' dir acc"
proof (rule scan_agree)
  fix i
  let ?q = "ray_pos (advance pos dir) dir i"
  assume on: "on_board ?q"
  have "?q = ray_pos pos dir (Suc i)"
    by (simp add: ray_pos_Suc advance_def)
  with dir have neq: "?q \<noteq> pos"
    by (simp add: ray_pos_neq_start)
  from wf on have "\<forall>r. cell b ?q = Some r \<longrightarrow> r < length (heap b)"
    unfolding wf_board_iff by blast
  with on pos neq show "cell (place b pos color) ?q = cell b ?q \<and>
      color_at (place b pos color) ?q = color_at b ?q"
    by (simp add: cell_place_other color_at_place_other)
qed

lemma flips_of_place:
  assumes "wf_board b" and "on_board pos"
  shows "flips_of (place b pos color) pos color DIRS = flips_of b pos color DIRS"
  unfolding flips_of_def
  by (rule arg_cong [where f = concat], rule map_cong [OF refl])
     (simp add: scan_place [OF assms])

lemma ray_distinct:
  assumes wf: "wf_board b" and dir: "dir \<in> set DIRS"
    and scan: "scan b (advance pos dir) color dir [] = Some ps"
  shows "distinct ps"
proof -
  from ray_list [OF scan] obtain k where
    ps: "ps = map (\<lambda>i. cell b (ray_pos pos dir (Suc i))) [0..<k]"
    and ok: "\<forall>i<k. on_board (ray_pos pos dir (Suc i)) \<and> cell b (ray_pos pos dir (Suc i)) \<noteq> None"
    by blast
  have "i = j" if "i < k" "j < k"
    "cell b (ray_pos pos dir (Suc i)) = cell b (ray_pos pos dir (Suc j))" for i j
  proof -
    from ok that obtain r where
      "on_board (ray_pos pos dir (Suc i))" "on_board (ray_pos pos dir (Suc j))"
      "cell b (ray_pos pos dir (Suc i)) = Some r" "cell b (ray_pos pos dir (Suc j)) = Some r"
      by (metis not_Some_eq)
    with wf have "ray_pos pos dir (Suc i) = ray_pos pos dir (Suc j)"
      unfolding wf_board_iff by blast
    with dir show ?thesis
      using ray_pos_inj by blast
  qed
  then have "inj_on (\<lambda>i. cell b (ray_pos pos dir (Suc i))) (set [0..<k])"
    by (auto simp: inj_on_def)
  then show ?thesis
    unfolding ps by (simp add: distinct_map)
qed

lemma flips_of_distinct:
  assumes wf: "wf_board b"
  shows "distinct ds \<Longrightarrow> set ds \<subseteq> set DIRS \<Longrightarrow> distinct (flips_of b pos color ds)"
proof (induction ds)
  case Nil
  then show ?case by (simp add: flips_of_def)
next
  case (Cons d ds)
  then have d: "d \<in> set DIRS" "d \<notin> set ds" and ds: "set ds \<subseteq> set DIRS" "distinct ds"
    by auto
  from ds have zero: "(0, 0) \<notin> set ds" "(0, 0) \<notin> set [d]"
    using DIRS_nonzero d(1) by auto
  show ?case
  proof (cases "scan b (advance pos d) color d []")
    case None
    with Cons.IH ds show ?thesis
      by (simp add: flips_of_Cons)
  next
    case (Some ps)
    have "distinct ps"
      using wf d(1) Some by (rule ray_distinct)
    moreover have "distinct (flips_of b pos color ds)"
      using Cons.IH ds by simp
    moreover have "set ps \<inter> set (flips_of b pos color ds) = {}"
    proof (rule ccontr)
      assume "set ps \<inter> set (flips_of b pos color ds) \<noteq> {}"
      then obtain x where x1: "x \<in> set ps" and x2: "x \<in> set (flips_of b pos color ds)"
        by blast
      from x1 Some have "x \<in> set (flips_of b pos color [d])"
        by (simp add: flips_of_def)
      from flips_of_cells [OF this zero(2)] obtain i where
        i: "on_board (ray_pos pos d (Suc i))" "x = cell b (ray_pos pos d (Suc i))" "x \<noteq> None"
        by auto
      from flips_of_cells [OF x2 zero(1)] obtain e j where
        j: "e \<in> set ds" "on_board (ray_pos pos e (Suc j))" "x = cell b (ray_pos pos e (Suc j))"
        by auto
      from i j obtain r where
        "cell b (ray_pos pos d (Suc i)) = Some r" "cell b (ray_pos pos e (Suc j)) = Some r"
        by (metis not_Some_eq)
      with wf i(1) j(2) have "ray_pos pos d (Suc i) = ray_pos pos e (Suc j)"
        unfolding wf_board_iff by blast
      with d(1) j(1) ds(1) have "d = e"
        using ray_pos_inj by blast
      with d(2) j(1) show False by simp
    qed
    ultimately show ?thesis
      using Some by (simp add: flips_of_Cons)
  qed
qed

lemma wf_place:
  assumes wf: "wf_board b" and pos: "on_board pos" and len: "length h = Suc (length (heap b))"
  shows "wf_board ((place b pos color)\<lparr>heap := h\<rparr>)"
proof -
  let ?b' = "(place b pos color)\<lparr>heap := h\<rparr>"
  from wf have shape: "length (grid b) = 8" "\<forall>row\<in>set (grid b). length row = 8"
    and range: "\<And>p r. on_board p \<Longrightarrow> cell b p = Some r \<Longrightarrow> r < length (heap b)"
    and inj: "\<And>p q r. on_board p \<Longrightarrow> on_board q \<Longrightarrow> cell b p = Some r \<Longrightarrow>
                 cell b q = Some r \<Longrightarrow> p = q"
    unfolding wf_board_iff by blast+
  have cell': "cell (place b pos color) p = (if p = pos then Some (length (heap b)) else cell b p)"
    if "on_board p" for p
    using that pos shape by (simp add: cell_place_other cell_place_same)
  have 1: "length (grid ?b') = 8"
    using shape by (simp add: grid_place)
  have 2: "\<forall>row\<in>set (grid ?b'). length row = 8"
  proof
    fix row assume "row \<in> set (grid ?b')"
    then have "row \<in> insert ((grid b ! nat (fst pos))[nat (snd pos) := Some (length (heap b))])
                 (set (grid b))"
      using set_update_subset_insert by (fastforce simp: grid_place)
    moreover have "grid b ! nat (fst pos) \<in> set (grid b)"
      using shape(1) on_board_nat [OF pos] by simp
    ultimately show "length row = 8"
      using shape(2) by auto
  qed
  have 3: "\<forall>p r. on_board p \<and> cell ?b' p = Some r \<longrightarrow> r < length (heap ?b')"
  proof (intro allI impI)
    fix p r
    assume a: "on_board p \<and> cell ?b' p = Some r"
    show "r < length (heap ?b')"
    proof (cases "p = pos")
      case True
      with a len show ?thesis by (auto simp: cell')
    next
      case False
      with a have "cell b p = Some r" by (auto simp: cell')
      with a range have "r < length (heap b)" by blast
      with len show ?thesis by simp
    qed
  qed
  have 4: "\<forall>p q r. on_board p \<and> on_board q \<and> cell ?b' p = Some r \<and> cell ?b' q = Some r
             \<longrightarrow> p = q"
  proof (intro allI impI)
    fix p q r
    assume a: "on_board p \<and> on_board q \<and> cell ?b' p = Some r \<and> cell ?b' q = Some r"
    show "p = q"
    proof (cases "r = length (heap b)")
      case True
      have "cell b p' \<noteq> Some (length (heap b))" if "on_board p'" for p'
        using range [OF that] by (metis less_irrefl)
      note fresh = this
      have "p' = pos" if "on_board p'" "cell (place b pos color) p' = Some r" for p'
      proof (rule ccontr)
        assume "p' \<noteq> pos"
        with that have "cell b p' = Some r" by (simp add: cell')
        with True fresh [OF that(1)] show False by simp
      qed
      with a have "p = pos" "q = pos" by auto
      then show ?thesis by simp
    next
      case False
      with a have "cell b p = Some r" "cell b q = Some r"
        by (auto simp: cell' split: if_splits)
      with a inj show ?thesis by blast
    qed
  qed
  from 1 2 3 4 show ?thesis
    unfolding wf_board_iff by blast
qed

lemma placePiece_legal:
  assumes wf: "wf_board b" and legal: "legal b pos color"
  defines "fl \<equiv> flips_of b pos color DIRS"
  defines "b' \<equiv> (place b pos color)\<lparr>heap :=
                   foldl toggle (heap b @ [\<lparr>piece_color = color\<rparr>]) (map the fl)\<rparr>"
  shows "placePiece pos color b = ret () b'"
    and "\<forall>x\<in>set fl. \<exists>r<length (heap b). x = Some r"
    and "length (heap b') = Suc (length (heap b))"
    and "heap b' ! length (heap b) = \<lparr>piece_color = color\<rparr>"
    and "\<forall>r<length (heap b). heap b' ! r =
           (if Some r \<in> set fl then \<lparr>piece_color = opposite (piece_color (heap b ! r))\<rparr>
            else heap b ! r)"
    and "wf_board b'"
proof -
  from legal have pos: "on_board pos"
    by (simp add: legal_def)
  have "heap (place b pos color) = heap b @ [\<lparr>piece_color = color\<rparr>]"
    by (simp add: place_def)
  then show "placePiece pos color b = ret () b'"
    using legal by (simp add: placePiece_eq flips_of_place [OF wf pos] b'_def fl_def)
  show some: "\<forall>x\<in>set fl. \<exists>r<length (heap b). x = Some r"
  proof
    fix x assume "x \<in> set fl"
    from flips_of_cells [OF this [unfolded fl_def] DIRS_nonzero] obtain dir i where
      q: "on_board (ray_pos pos dir (Suc i))" "x = cell b (ray_pos pos dir (Suc i))" "x \<noteq> None"
      by blast
    then obtain r where r: "x = Some r"
      by auto
    with q wf have "r < length (heap b)"
      unfolding wf_board_iff by metis
    with r show "\<exists>r<length (heap b). x = Some r"
      by blast
  qed
  have "distinct fl"
    unfolding fl_def using wf distinct_DIRS by (rule flips_of_distinct) simp
  moreover have "inj_on the (set fl)"
    using some by (intro inj_onI) (metis option.sel)
  ultimately have dist: "distinct (map the fl)"
    by (simp add: distinct_map)
  have mem: "r \<in> the ` set fl \<longleftrightarrow> Some r \<in> set fl" for r
    using some by force
  show "length (heap b') = Suc (length (heap b))"
    by (simp add: b'_def)
  have "length (heap b) \<notin> set (map the fl)"
    using some by (auto simp: mem)
  then show "heap b' ! length (heap b) = \<lparr>piece_color = color\<rparr>"
    using toggle_nth [OF dist, of "length (heap b)" "heap b @ [\<lparr>piece_color = color\<rparr>]"]
    by (simp add: b'_def)
  show "\<forall>r<length (heap b). heap b' ! r =
           (if Some r \<in> set fl then \<lparr>piece_color = opposite (piece_color (heap b ! r))\<rparr>
            else heap b ! r)"
  proof (intro allI impI)
    fix r assume r: "r < length (heap b)"
    then show "heap b' ! r =
           (if Some r \<in> set fl then \<lparr>piece_color = opposite (piece_color (heap b ! r))\<rparr>
            else heap b ! r)"
      using toggle_nth [OF dist, of r "heap b @ [\<lparr>piece_color = color\<rparr>]"]
      by (simp add: b'_def mem nth_append)
  qed
  show "wf_board b'"
    unfolding b'_def using wf pos by (rule wf_place) simp
qed

lemma state_after_simps [simp]:
  "state_after (ret x b) = Some b" "state_after (throw e b) = Some b"
  by (simp_all add: state_after_def ret_def throw_def)

lemma perform_cases:
  "perform c b = Some b \<or>
   (\<exists>pos color h. c = PlacePiece pos color \<and> legal b pos color \<and>
      length h = Suc (length (heap b)) \<and>
      perform c b = Some ((place b pos color)\<lparr>heap := h\<rparr>))"
proof (cases c)
  case (PlacePiece pos color)
  show ?thesis
  proof (cases "legal b pos color")
    case True
    with PlacePiece have "perform c b = Some ((place b pos color)\<lparr>heap :=
        foldl toggle (heap (place b pos color))
          (map the (flips_of (place b pos color) pos color DIRS))\<rparr>)"
      by (simp add: placePiece_eq)
    moreover have "length (foldl toggle (heap (place b pos color))
          (map the (flips_of (place b pos color) pos color DIRS))) = Suc (length (heap b))"
      by (simp add: place_def)
    ultimately show ?thesis using True PlacePiece by blast
  next
    case False
    with PlacePiece show ?thesis by (simp add: placePiece_eq)
  qed
qed (simp_all add: getPiece_eq hasMove_eq isMine_eq isOccupied_eq isOver_eq isValidPos_eq
        print_def validMove_eq validMoves_eq)

lemma shape_place:
  assumes "length (grid b) = 8" and "\<forall>row\<in>set (grid b). length row = 8" and "on_board pos"
  shows "length (grid ((place b pos color)\<lparr>heap := h\<rparr>)) = 8"
    and "\<forall>row\<in>set (grid ((place b pos color)\<lparr>heap := h\<rparr>)). length row = 8"
proof -
  show "length (grid ((place b pos color)\<lparr>heap := h\<rparr>)) = 8"
    using assms(1) by (simp add: grid_place)
  show "\<forall>row\<in>set (grid ((place b pos color)\<lparr>heap := h\<rparr>)). length row = 8"
  proof
    fix row assume "row \<in> set (grid ((place b pos color)\<lparr>heap := h\<rparr>))"
    then have "row \<in> insert ((grid b ! nat (fst pos))[nat (snd pos) := Some (length (heap b))])
                 (set (grid b))"
      using set_update_subset_insert by (fastforce simp: grid_place)
    moreover have "grid b ! nat (fst pos) \<in> set (grid b)"
      using assms(1) on_board_nat [OF assms(3)] by simp
    ultimately show "length row = 8"
      using assms(2) by auto
  qed
qed

lemma perform_keeps:
  assumes "length (grid b) = 8" and "\<forall>row\<in>set (grid b). length row = 8"
  shows "\<exists>b'. perform c b = Some b' \<and> length (grid b') = 8 \<and>
           (\<forall>row\<in>set (grid b'). length row = 8) \<and>
           (\<forall>q p. on_board q \<and> cell b q = Some p \<longrightarrow> cell b' q = Some p)"
proof -
  from perform_cases [of c b] show ?thesis
  proof
    assume "perform c b = Some b"
    with assms show ?thesis by simp
  next
    assume "\<exists>pos color h. c = PlacePiece pos color \<and> legal b pos color \<and>
      length h = Suc (length (heap b)) \<and>
      perform c b = Some ((place b pos color)\<lparr>heap := h\<rparr>)"
    then obtain pos color h where legal: "legal b pos color"
      and b': "perform c b = Some ((place b pos color)\<lparr>heap := h\<rparr>)"
      by blast
    from legal have pos: "on_board pos" "cell b pos = None"
      by (simp_all add: legal_def)
    have "cell ((place b pos color)\<lparr>heap := h\<rparr>) q = Some p"
      if "on_board q" "cell b q = Some p" for q p
    proof -
      from that pos(2) have "q \<noteq> pos" by auto
      with that pos(1) show ?thesis by (simp add: cell_place_other)
    qed
    with b' shape_place [OF assms pos(1), where color = color and h = h] show ?thesis
      by blast
  qed
qed

lemma run_keeps:
  "length (grid b) = 8 \<Longrightarrow> \<forall>row\<in>set (grid b). length row = 8 \<Longrightarrow>
   \<exists>b'. run calls b = Some b' \<and> length (grid b') = 8 \<and>
        (\<forall>row\<in>set (grid b'). length row = 8) \<and>
        (\<forall>q p. on_board q \<and> cell b q = Some p \<longrightarrow> cell b' q = Some p)"
proof (induction calls arbitrary: b)
  case Nil
  then show ?case by simp
next
  case (Cons c cs)
  from perform_keeps [OF Cons.prems, of c] obtain b1 where
    b1: "perform c b = Some b1" "length (grid b1) = 8" "\<forall>row\<in>set (grid b1). length row = 8"
      "\<forall>q p. on_board q \<and> cell b q = Some p \<longrightarrow> cell b1 q = Some p"
    by blast
  from Cons.IH [OF b1(2,3)] obtain b' where
    b': "run cs b1 = Some b'" "length (grid b') = 8" "\<forall>row\<in>set (grid b'). length row = 8"
      "\<forall>q p. on_board q \<and> cell b1 q = Some p \<longrightarrow> cell b' q = Some p"
    by blast
  from b1(1) b'(1) have "run (c # cs) b = Some b'"
    by simp
  moreover from b1(4) b'(4) have "\<forall>q p. on_board q \<and> cell b q = Some p \<longrightarrow> cell b' q = Some p"
    by blast
  ultimately show ?case
    using b'(2,3) by blast
qed

lemma perform_wf: "wf_board b \<Longrightarrow> perform c b = Some b' \<Longrightarrow> wf_board b'"
  using perform_cases [of c b] by (auto simp: legal_def intro: wf_place)

lemma run_wf: "wf_board b \<Longrightarrow> run calls b = Some b' \<Longrightarrow> wf_board b'"
proof (induction calls arbitrary: b)
  case Nil
  then show ?case by simp
next
  case (Cons c cs)
  then show ?case
    by (auto split: option.splits dest: perform_wf)
qed

section \<open>The claims\<close>

subsection \<open>C1: \<^verbatim>\<open>isMine\<close> at a position off the board\<close>

text \<open>
  C1 says that \<^verbatim>\<open>isMine(pos, color)\<close> returns false at every position outside
  [0,7]x[0,7]. The source has no handler around its calls of \<^verbatim>\<open>getPiece\<close>: at
  \<^verbatim>\<open>[8, 0]\<close> on the initial board the call throws "Not valid pos!" and does not
  return false.
\<close>

theorem isMine_off_board_counterexample:
  "isMine (8, 0) Black initial_board = throw NotValidPos initial_board \<and>
   isMine (8, 0) Black initial_board \<noteq> ret False initial_board"
  by (simp add: isMine_eq on_board_def)

text \<open>
  C1, as amended: for every position outside [0,7]x[0,7] in either coordinate and
  every color, \<^verbatim>\<open>isMine(pos, color)\<close> fails with the position-validity error that
  \<^verbatim>\<open>getPiece\<close> raises there, and leaves the board as it was.
\<close>

theorem isMine_off_board_throws:
  "fst pos < 0 \<or> 7 < fst pos \<or> snd pos < 0 \<or> 7 < snd pos \<Longrightarrow>
   getPiece pos b = throw NotValidPos b \<and> isMine pos color b = throw NotValidPos b"
  by (auto simp: isMine_eq getPiece_eq on_board_def)

theorem isMine_off_board_throws_witness:
  "((fst (8::int, 0::int) < 0 \<or> 7 < fst (8::int, 0::int) \<or>
     snd (8::int, 0::int) < 0 \<or> 7 < snd (8::int, 0::int))) \<and>
   getPiece (8, 0) initial_board = throw NotValidPos initial_board \<and>
   isMine (8, 0) White initial_board = throw NotValidPos initial_board"
  using isMine_off_board_throws [of "(8, 0)" initial_board White] by simp

subsection \<open>C2: a move that is not legal changes nothing\<close>

text \<open>
  C2: for every board state, position and color, if \<^verbatim>\<open>validMove(pos, color)\<close> is false
  then \<^verbatim>\<open>placePiece(pos, color)\<close> fails with InvalidMove and the state after the failed
  call (grid and pieces) is the state before it.
\<close>

theorem placePiece_invalid_unchanged:
  "validMove pos color b = ret False b' \<Longrightarrow> placePiece pos color b = throw InvalidMove b"
  by (auto simp: placePiece_def validMove_eq)

theorem placePiece_invalid_unchanged_witness:
  "validMove (0, 0) Black initial_board = ret False initial_board \<and>
   placePiece (0, 0) Black initial_board = throw InvalidMove initial_board"
proof -
  have h: "validMove (0, 0) Black initial_board = ret False initial_board"
    by code_simp
  from placePiece_invalid_unchanged [OF h] h show ?thesis by simp
qed

subsection \<open>C3: what a legal \<^verbatim>\<open>placePiece\<close> does\<close>

text \<open>The concatenation, in the order of \<^verbatim>\<open>Board.DIRS\<close>, of the lists that the ray casts
  from one step beyond \<open>pos\<close> return in state \<open>b\<close>; a ray cast that returns \<^verbatim>\<open>null\<close>
  contributes nothing.\<close>

definition flip_lists :: "pos \<Rightarrow> color \<Rightarrow> board \<Rightarrow> ref option list" where
  "flip_lists pos color b =
     concat (map (\<lambda>dir.
       case positionsToFlip (fst pos + fst dir, snd pos + snd dir) color dir [] b of
         Some (Inr (Some ps), b') \<Rightarrow> ps
       | _ \<Rightarrow> []) DIRS)"

lemma flip_lists_eq: "flip_lists pos color b = flips_of b pos color DIRS"
proof -
  have "(case positionsToFlip (fst pos + fst dir, snd pos + snd dir) color dir [] b of
           Some (Inr (Some ps), b') \<Rightarrow> ps | _ \<Rightarrow> [])
        = (case scan b (advance pos dir) color dir [] of None \<Rightarrow> [] | Some ps \<Rightarrow> ps)"
    if "dir \<in> set DIRS" for dir
  proof -
    from that have "dir \<noteq> (0, 0)"
      using DIRS_nonzero by auto
    then show ?thesis
      by (simp add: positionsToFlip_scan advance_def ret_def split: option.splits)
  qed
  then show ?thesis
    unfolding flip_lists_def flips_of_def
    by (intro arg_cong [where f = concat] map_cong refl)
qed

text \<open>
  C3: for every board state, position and color with \<^verbatim>\<open>validMove(pos, color)\<close> true,
  \<^verbatim>\<open>placePiece(pos, color)\<close> returns; it puts a new piece of that color at \<open>pos\<close>,
  toggles the color of exactly the pieces in the concatenation of the non-null
  flip-lists of the 8 directions, and changes no other cell and no other piece; the
  state it leaves is again a board state. On the initial board,
  \<^verbatim>\<open>placePiece([2,3], "black")\<close> makes cell [2,3] black and turns the piece at [3,3]
  from white to black, and nothing else changes.
\<close>

theorem placePiece_effect:
  "(wf_board b \<and> validMove pos color b = ret True b \<longrightarrow>
     (\<exists>b'. placePiece pos color b = ret () b' \<and>
        grid b' = (grid b)[nat (fst pos) :=
                    (grid b ! nat (fst pos))[nat (snd pos) := Some (length (heap b))]] \<and>
        getPiece pos b' = ret (Some (length (heap b))) b' \<and>
        (\<forall>q. isValidPos q b = ret True b \<and> q \<noteq> pos \<longrightarrow>
           (\<exists>p. getPiece q b = ret p b \<and> getPiece q b' = ret p b')) \<and>
        length (heap b') = Suc (length (heap b)) \<and>
        heap b' ! length (heap b) = \<lparr>piece_color = color\<rparr> \<and>
        (\<forall>x\<in>set (flip_lists pos color b). \<exists>r<length (heap b). x = Some r) \<and>
        (\<forall>r<length (heap b). heap b' ! r =
           (if Some r \<in> set (flip_lists pos color b)
            then \<lparr>piece_color = opposite (piece_color (heap b ! r))\<rparr>
            else heap b ! r)) \<and>
        wf_board b')) \<and>
   placePiece (2, 3) Black initial_board =
     ret () \<lparr>grid = [
         [None, None, None, None, None, None, None, None],
         [None, None, None, None, None, None, None, None],
         [None, None, None, Some 4, None, None, None, None],
         [None, None, None, Some 0, Some 1, None, None, None],
         [None, None, None, Some 2, Some 3, None, None, None],
         [None, None, None, None, None, None, None, None],
         [None, None, None, None, None, None, None, None],
         [None, None, None, None, None, None, None, None]],
       heap = [\<lparr>piece_color = Black\<rparr>, \<lparr>piece_color = Black\<rparr>,
               \<lparr>piece_color = Black\<rparr>, \<lparr>piece_color = White\<rparr>,
               \<lparr>piece_color = Black\<rparr>]\<rparr>"
proof (rule conjI, rule impI)
  assume "wf_board b \<and> validMove pos color b = ret True b"
  then have wf: "wf_board b" and legal: "legal b pos color"
    by (simp_all add: validMove_eq)
  define b' where "b' = (place b pos color)\<lparr>heap :=
      foldl toggle (heap b @ [\<lparr>piece_color = color\<rparr>]) (map the (flips_of b pos color DIRS))\<rparr>"
  note eff = placePiece_legal [OF wf legal, folded b'_def flip_lists_eq]
  from legal have pos: "on_board pos"
    by (simp add: legal_def)
  from wf have shape: "length (grid b) = 8" "\<forall>row\<in>set (grid b). length row = 8"
    unfolding wf_board_iff by blast+
  have g: "grid b' = (grid b)[nat (fst pos) :=
                    (grid b ! nat (fst pos))[nat (snd pos) := Some (length (heap b))]]"
    by (simp add: b'_def grid_place)
  have here: "getPiece pos b' = ret (Some (length (heap b))) b'"
    using pos shape by (simp add: getPiece_eq b'_def cell_place_same)
  have others: "\<forall>q. isValidPos q b = ret True b \<and> q \<noteq> pos \<longrightarrow>
           (\<exists>p. getPiece q b = ret p b \<and> getPiece q b' = ret p b')"
    using pos by (auto simp: isValidPos_eq getPiece_eq b'_def cell_place_other)
  from eff g here others show
    "\<exists>b'. placePiece pos color b = ret () b' \<and>
        grid b' = (grid b)[nat (fst pos) :=
                    (grid b ! nat (fst pos))[nat (snd pos) := Some (length (heap b))]] \<and>
        getPiece pos b' = ret (Some (length (heap b))) b' \<and>
        (\<forall>q. isValidPos q b = ret True b \<and> q \<noteq> pos \<longrightarrow>
           (\<exists>p. getPiece q b = ret p b \<and> getPiece q b' = ret p b')) \<and>
        length (heap b') = Suc (length (heap b)) \<and>
        heap b' ! length (heap b) = \<lparr>piece_color = color\<rparr> \<and>
        (\<forall>x\<in>set (flip_lists pos color b). \<exists>r<length (heap b). x = Some r) \<and>
        (\<forall>r<length (heap b). heap b' ! r =
           (if Some r \<in> set (flip_lists pos color b)
            then \<lparr>piece_color = opposite (piece_color (heap b ! r))\<rparr>
            else heap b ! r)) \<and>
        wf_board b'"
    by blast
next
  show "placePiece (2, 3) Black initial_board =
     ret () \<lparr>grid = [
         [None, None, None, None, None, None, None, None],
         [None, None, None, None, None, None, None, None],
         [None, None, None, Some 4, None, None, None, None],
         [None, None, None, Some 0, Some 1, None, None, None],
         [None, None, None, Some 2, Some 3, None, None, None],
         [None, None, None, None, None, None, None, None],
         [None, None, None, None, None, None, None, None],
         [None, None, None, None, None, None, None, None]],
       heap = [\<lparr>piece_color = Black\<rparr>, \<lparr>piece_color = Black\<rparr>,
               \<lparr>piece_color = Black\<rparr>, \<lparr>piece_color = White\<rparr>,
               \<lparr>piece_color = Black\<rparr>]\<rparr>"
    by code_simp
qed

theorem placePiece_effect_witness:
  "wf_board initial_board \<and>
   validMove (2, 3) Black initial_board = ret True initial_board \<and>
   flip_lists (2, 3) Black initial_board = [Some 0] \<and>
   (\<exists>b'. placePiece (2, 3) Black initial_board = ret () b' \<and>
      getPiece (2, 3) b' = ret (Some 4) b' \<and>
      heap b' ! 4 = \<lparr>piece_color = Black\<rparr> \<and>
      heap b' ! 0 = \<lparr>piece_color = Black\<rparr> \<and>
      heap b' ! 3 = \<lparr>piece_color = White\<rparr> \<and>
      wf_board b')"
proof -
  have h1: "wf_board initial_board"
    by code_simp
  have h2: "validMove (2, 3) Black initial_board = ret True initial_board"
    by code_simp
  have fl: "flip_lists (2, 3) Black initial_board = [Some 0]"
    by code_simp
  have hp: "length (heap initial_board) = 4"
    "heap initial_board ! 0 = \<lparr>piece_color = White\<rparr>"
    "heap initial_board ! 3 = \<lparr>piece_color = White\<rparr>"
    by (simp_all add: initial_board_eq)
  from placePiece_effect [of initial_board "(2, 3)" Black] h1 h2 obtain b' where
    b': "placePiece (2, 3) Black initial_board = ret () b'"
      "getPiece (2, 3) b' = ret (Some (length (heap initial_board))) b'"
      "heap b' ! length (heap initial_board) = \<lparr>piece_color = Black\<rparr>"
      "\<forall>r<length (heap initial_board). heap b' ! r =
           (if Some r \<in> set (flip_lists (2, 3) Black initial_board)
            then \<lparr>piece_color = opposite (piece_color (heap initial_board ! r))\<rparr>
            else heap initial_board ! r)"
      "wf_board b'"
    by blast
  from b'(4) have "heap b' ! 0 = \<lparr>piece_color = Black\<rparr>" "heap b' ! 3 = \<lparr>piece_color = White\<rparr>"
    by (simp_all add: fl hp)
  with b'(1,2,3,5) h1 h2 fl show ?thesis
    by (auto simp: hp)
qed

subsection \<open>C4: what \<^verbatim>\<open>validMove\<close> decides\<close>

text \<open>
  C4: \<^verbatim>\<open>validMove(pos, color)\<close> is true if and only if \<open>pos\<close> is on the board, the
  cell at \<open>pos\<close> is unoccupied, and at least one of the 8 directions yields a non-empty
  flip-list; on the initial board \<^verbatim>\<open>validMove([2,3], "black")\<close> is true and
  \<^verbatim>\<open>validMove([0,0], "black")\<close> is false.
\<close>

theorem validMove_iff:
  "validMove pos color b =
     ret (isValidPos pos b = ret True b \<and> isOccupied pos b = ret False b \<and>
          (\<exists>dir\<in>set DIRS. \<exists>ps. ps \<noteq> [] \<and>
             positionsToFlip (fst pos + fst dir, snd pos + snd dir) color dir [] b
               = ret (Some ps) b)) b \<and>
   validMove (2, 3) Black initial_board = ret True initial_board \<and>
   validMove (0, 0) Black initial_board = ret False initial_board"
proof -
  have "validMove (2, 3) Black initial_board = ret True initial_board"
    by code_simp
  moreover have "validMove (0, 0) Black initial_board = ret False initial_board"
    by code_simp
  ultimately show ?thesis
    by (simp add: validMove_eq legal_iff)
qed

theorem validMove_iff_witness:
  "isValidPos (2, 3) initial_board = ret True initial_board \<and>
   isOccupied (2, 3) initial_board = ret False initial_board \<and>
   (1, 0) \<in> set DIRS \<and>
   positionsToFlip (3, 3) Black (1, 0) [] initial_board = ret (Some [Some 0]) initial_board \<and>
   validMove (2, 3) Black initial_board = ret True initial_board"
proof -
  have 1: "isValidPos (2, 3) initial_board = ret True initial_board" by code_simp
  have 2: "isOccupied (2, 3) initial_board = ret False initial_board" by code_simp
  have 3: "(1, 0) \<in> set DIRS" by (simp add: DIRS_def)
  have 4: "positionsToFlip (3, 3) Black (1, 0) [] initial_board
             = ret (Some [Some 0]) initial_board" by code_simp
  from 3 4 have "\<exists>dir\<in>set DIRS. \<exists>ps. ps \<noteq> [] \<and>
      positionsToFlip (fst (2, 3) + fst dir, snd (2, 3) + snd dir) Black dir [] initial_board
        = ret (Some ps) initial_board"
    by (intro bexI [of _ "(1, 0)"] exI [of _ "[Some 0]"]) simp_all
  with 1 2 3 4 show ?thesis
    using validMove_iff [of "(2, 3)" Black initial_board] by simp
qed

subsection \<open>C5: the cases of the flip-scan\<close>

text \<open>
  C5: \<^verbatim>\<open>_positionsToFlip\<close> returns \<^verbatim>\<open>null\<close> if \<open>pos\<close> is off the board; \<^verbatim>\<open>null\<close> if the
  piece at \<open>pos\<close> has the mover's color and the accumulator is empty, and the accumulator
  itself if it is not empty; \<^verbatim>\<open>null\<close> if \<open>pos\<close> is unoccupied; otherwise it appends the
  piece at \<open>pos\<close> to the accumulator and recurses at \<open>pos + dir\<close>.
\<close>

theorem positionsToFlip_cases:
  "(isValidPos pos b = ret False b \<longrightarrow>
      positionsToFlip pos color dir acc b = ret None b) \<and>
   (isValidPos pos b = ret True b \<and> isMine pos color b = ret True b \<and> acc = [] \<longrightarrow>
      positionsToFlip pos color dir acc b = ret None b) \<and>
   (isValidPos pos b = ret True b \<and> isMine pos color b = ret True b \<and> acc \<noteq> [] \<longrightarrow>
      positionsToFlip pos color dir acc b = ret (Some acc) b) \<and>
   (isValidPos pos b = ret True b \<and> isOccupied pos b = ret False b \<longrightarrow>
      positionsToFlip pos color dir acc b = ret None b) \<and>
   (isValidPos pos b = ret True b \<and> isMine pos color b = ret False b \<and>
    isOccupied pos b = ret True b \<longrightarrow>
      (\<exists>p. getPiece pos b = ret (Some p) b \<and>
           positionsToFlip pos color dir acc b =
           positionsToFlip (fst pos + fst dir, snd pos + snd dir) color dir (acc @ [Some p]) b))"
  by (subst (1 2 3 4 5) positionsToFlip_step)
     (auto simp: isValidPos_eq isMine_eq isOccupied_eq getPiece_eq color_at_def)

theorem positionsToFlip_cases_witness:
  "(isValidPos (8, 3) initial_board = ret False initial_board \<and>
    positionsToFlip (8, 3) Black (1, 0) [] initial_board = ret None initial_board) \<and>
   (isValidPos (3, 4) initial_board = ret True initial_board \<and>
    isMine (3, 4) Black initial_board = ret True initial_board \<and>
    positionsToFlip (3, 4) Black (0, 1) [] initial_board = ret None initial_board) \<and>
   (isValidPos (4, 3) initial_board = ret True initial_board \<and>
    isMine (4, 3) Black initial_board = ret True initial_board \<and>
    positionsToFlip (4, 3) Black (1, 0) [Some 0] initial_board
      = ret (Some [Some 0]) initial_board) \<and>
   (isValidPos (2, 4) initial_board = ret True initial_board \<and>
    isOccupied (2, 4) initial_board = ret False initial_board \<and>
    positionsToFlip (2, 4) Black (0, 1) [] initial_board = ret None initial_board) \<and>
   (isValidPos (3, 3) initial_board = ret True initial_board \<and>
    isMine (3, 3) Black initial_board = ret False initial_board \<and>
    isOccupied (3, 3) initial_board = ret True initial_board \<and>
    getPiece (3, 3) initial_board = ret (Some 0) initial_board \<and>
    positionsToFlip (3, 3) Black (1, 0) [] initial_board =
    positionsToFlip (4, 3) Black (1, 0) [Some 0] initial_board)"
proof -
  have a: "isValidPos (8, 3) initial_board = ret False initial_board" by code_simp
  have b1: "isValidPos (3, 4) initial_board = ret True initial_board" by code_simp
  have b2: "isMine (3, 4) Black initial_board = ret True initial_board" by code_simp
  have c1: "isValidPos (4, 3) initial_board = ret True initial_board" by code_simp
  have c2: "isMine (4, 3) Black initial_board = ret True initial_board" by code_simp
  have d1: "isValidPos (2, 4) initial_board = ret True initial_board" by code_simp
  have d2: "isOccupied (2, 4) initial_board = ret False initial_board" by code_simp
  have e1: "isValidPos (3, 3) initial_board = ret True initial_board" by code_simp
  have e2: "isMine (3, 3) Black initial_board = ret False initial_board" by code_simp
  have e3: "isOccupied (3, 3) initial_board = ret True initial_board" by code_simp
  have e4: "getPiece (3, 3) initial_board = ret (Some 0) initial_board" by code_simp
  show ?thesis
    using positionsToFlip_cases [of "(8, 3)" initial_board Black "(1, 0)" "[]"]
      positionsToFlip_cases [of "(3, 4)" initial_board Black "(0, 1)" "[]"]
      positionsToFlip_cases [of "(4, 3)" initial_board Black "(1, 0)" "[Some 0]"]
      positionsToFlip_cases [of "(2, 4)" initial_board Black "(0, 1)" "[]"]
      positionsToFlip_cases [of "(3, 3)" initial_board Black "(1, 0)" "[]"]
      a b1 b2 c1 c2 d1 d2 e1 e2 e3 e4
    by simp
qed

subsection \<open>C6: \<^verbatim>\<open>validMoves\<close> lists the legal moves in row-major order\<close>

text \<open>
  C6: \<^verbatim>\<open>validMoves(color)\<close> returns exactly the positions among the 64 cells for which
  \<^verbatim>\<open>validMove\<close> holds, in row-major order (row 0..7, then column 0..7); its length is
  the number of positions where \<^verbatim>\<open>validMove\<close> returns true.
\<close>

theorem validMoves_row_major:
  "validMoves color b =
     ret (filter (\<lambda>pos. validMove pos color b = ret True b)
            (concat (map (\<lambda>i. map (\<lambda>j. (i, j)) [0..7]) [0..7]))) b \<and>
   (\<exists>moves. validMoves color b = ret moves b \<and>
      length moves = card {pos. validMove pos color b = ret True b})"
proof -
  let ?ms = "filter (\<lambda>pos. legal b pos color) all_cells"
  have "distinct ?ms"
    by (simp add: distinct_all_cells)
  then have "length ?ms = card (set ?ms)"
    by (rule distinct_card [symmetric])
  also have "set ?ms = {pos. legal b pos color}"
    by (auto dest: legal_on_board)
  finally have "length ?ms = card {pos. validMove pos color b = ret True b}"
    by (simp add: validMove_eq)
  then show ?thesis
    by (simp add: validMoves_eq validMove_eq all_cells_def)
qed

theorem validMoves_row_major_witness:
  "validMoves Black initial_board = ret [(2, 3), (3, 2), (4, 5), (5, 4)] initial_board \<and>
   card {pos. validMove pos Black initial_board = ret True initial_board} = 4"
proof -
  have "validMoves Black initial_board = ret [(2, 3), (3, 2), (4, 5), (5, 4)] initial_board"
    by code_simp
  then show ?thesis
    using validMoves_row_major [of Black initial_board] by auto
qed

subsection \<open>C7: the board after construction\<close>

text \<open>
  C7: on a freshly constructed board, \<^verbatim>\<open>getPiece([3,3])\<close> and \<^verbatim>\<open>getPiece([4,4])\<close> are
  white pieces, \<^verbatim>\<open>getPiece([3,4])\<close> and \<^verbatim>\<open>getPiece([4,3])\<close> are black pieces, the other
  60 cells are empty, and \<^verbatim>\<open>isOver()\<close> is false.
\<close>

theorem initial_board_layout:
  "Board = ret () initial_board \<and>
   getPiece (3, 3) initial_board = ret (Some 0) initial_board \<and>
   piece_color (heap initial_board ! 0) = White \<and>
   getPiece (4, 4) initial_board = ret (Some 3) initial_board \<and>
   piece_color (heap initial_board ! 3) = White \<and>
   getPiece (3, 4) initial_board = ret (Some 1) initial_board \<and>
   piece_color (heap initial_board ! 1) = Black \<and>
   getPiece (4, 3) initial_board = ret (Some 2) initial_board \<and>
   piece_color (heap initial_board ! 2) = Black \<and>
   (\<forall>pos. isValidPos pos initial_board = ret True initial_board \<and>
          pos \<notin> {(3, 3), (4, 4), (3, 4), (4, 3)} \<longrightarrow>
          getPiece pos initial_board = ret None initial_board) \<and>
   card {pos. getPiece pos initial_board = ret None initial_board} = 60 \<and>
   isOver initial_board = ret False initial_board"
proof -
  have cells: "getPiece (3, 3) initial_board = ret (Some 0) initial_board"
    "getPiece (4, 4) initial_board = ret (Some 3) initial_board"
    "getPiece (3, 4) initial_board = ret (Some 1) initial_board"
    "getPiece (4, 3) initial_board = ret (Some 2) initial_board"
    by code_simp+
  have colors: "piece_color (heap initial_board ! 0) = White"
    "piece_color (heap initial_board ! 3) = White"
    "piece_color (heap initial_board ! 1) = Black"
    "piece_color (heap initial_board ! 2) = Black"
    by (simp_all add: initial_board_eq)
  have others: "getPiece pos initial_board = ret None initial_board"
    if "isValidPos pos initial_board = ret True initial_board"
      and "pos \<notin> {(3, 3), (4, 4), (3, 4), (4, 3)}" for pos
  proof -
    from that(1) have "pos \<in> set all_cells"
      by (simp add: isValidPos_eq set_all_cells)
    with initial_empty_cells that(2) have "cell initial_board pos = None"
      by (auto simp: list_all_iff)
    with that(1) show ?thesis
      by (simp add: getPiece_eq isValidPos_eq)
  qed
  have "{pos. getPiece pos initial_board = ret None initial_board}
          = set (filter (\<lambda>pos. cell initial_board pos = None) all_cells)"
    by (auto simp: getPiece_eq set_all_cells)
  moreover have "card (set (filter (\<lambda>pos. cell initial_board pos = None) all_cells))
      = length (filter (\<lambda>pos. cell initial_board pos = None) all_cells)"
    by (rule distinct_card) (simp add: distinct_all_cells)
  ultimately have count: "card {pos. getPiece pos initial_board = ret None initial_board} = 60"
    by (simp only: initial_empty_count)
  have over: "isOver initial_board = ret False initial_board"
    by code_simp
  from others have "\<forall>pos. isValidPos pos initial_board = ret True initial_board \<and>
          pos \<notin> {(3, 3), (4, 4), (3, 4), (4, 3)} \<longrightarrow>
          getPiece pos initial_board = ret None initial_board"
    by blast
  with cells colors count over Board_eq show ?thesis
    by blast
qed

theorem initial_board_layout_witness:
  "isValidPos (0, 0) initial_board = ret True initial_board \<and>
   (0, 0) \<notin> {(3, 3), (4, 4), (3, 4), (4::int, 3::int)} \<and>
   getPiece (0, 0) initial_board = ret None initial_board"
proof -
  have "isValidPos (0, 0) initial_board = ret True initial_board"
    by code_simp
  then show ?thesis
    using initial_board_layout by simp
qed

subsection \<open>C8: the grid keeps its size and its pieces\<close>

text \<open>
  C8: for every sequence of calls on a board whose grid is 8x8, every call ends, the
  grid is 8x8 afterwards, and every cell that held a piece holds the same piece
  afterwards: an occupied cell never becomes empty, a placed piece is never removed
  or replaced (its color, kept in the piece, is all that can change).
\<close>

theorem occupied_cells_stay:
  assumes "length (grid b) = 8" and "\<forall>row\<in>set (grid b). length row = 8"
  shows "\<exists>b'. run calls b = Some b' \<and> length (grid b') = 8 \<and>
           (\<forall>row\<in>set (grid b'). length row = 8) \<and>
           (\<forall>pos p. isValidPos pos b = ret True b \<and> getPiece pos b = ret (Some p) b \<longrightarrow>
                    getPiece pos b' = ret (Some p) b')"
  using run_keeps [OF assms, of calls]
  by (auto simp: isValidPos_eq getPiece_eq)

theorem occupied_cells_stay_witness:
  "length (grid initial_board) = 8 \<and>
   map length (grid initial_board) = [8, 8, 8, 8, 8, 8, 8, 8] \<and>
   (\<exists>b'. run [PlacePiece (2, 3) Black, PlacePiece (0, 0) White, IsOver, GetPiece (9, 9)]
           initial_board = Some b' \<and>
         length (grid b') = 8 \<and>
         getPiece (3, 3) initial_board = ret (Some 0) initial_board \<and>
         getPiece (3, 3) b' = ret (Some 0) b')"
proof -
  have h1: "length (grid initial_board) = 8"
    by (simp add: initial_board_eq)
  have h2: "\<forall>row\<in>set (grid initial_board). length row = 8"
    by (simp add: initial_board_eq)
  have h3: "map length (grid initial_board) = [8, 8, 8, 8, 8, 8, 8, 8]"
    by (simp add: initial_board_eq)
  have v: "isValidPos (3, 3) initial_board = ret True initial_board"
    by code_simp
  have g: "getPiece (3, 3) initial_board = ret (Some 0) initial_board"
    by code_simp
  from occupied_cells_stay [OF h1 h2,
      of "[PlacePiece (2, 3) Black, PlacePiece (0, 0) White, IsOver, GetPiece (9, 9)]"]
    h1 h3 v g
  show ?thesis
    by blast
qed

subsection \<open>C9: the flip-scan ends, with at most 6 pieces\<close>

text \<open>
  C9: for every board state, starting position, color, accumulator and each of the 8
  directions (indeed every direction other than \<^verbatim>\<open>[0, 0]\<close>), \<^verbatim>\<open>_positionsToFlip\<close>
  returns; and the list returned by a ray cast from one step beyond a position on the
  board, as \<^verbatim>\<open>validMove\<close> and \<^verbatim>\<open>placePiece\<close> cast them, has at most 6 pieces.
\<close>

theorem positionsToFlip_terminates_bounded:
  "(dir \<in> set DIRS \<or> dir \<noteq> (0, 0) \<longrightarrow>
      (\<exists>r. positionsToFlip pos color dir acc b = ret r b)) \<and>
   (dir \<in> set DIRS \<and> isValidPos pos b = ret True b \<and>
    positionsToFlip (fst pos + fst dir, snd pos + snd dir) color dir [] b = ret (Some ps) b'
      \<longrightarrow> length ps \<le> 6)"
proof (intro conjI impI)
  assume "dir \<in> set DIRS \<or> dir \<noteq> (0, 0)"
  then have "dir \<noteq> (0, 0)"
    using DIRS_nonzero by auto
  then show "\<exists>r. positionsToFlip pos color dir acc b = ret r b"
    by (simp add: positionsToFlip_scan)
next
  assume a: "dir \<in> set DIRS \<and> isValidPos pos b = ret True b \<and>
    positionsToFlip (fst pos + fst dir, snd pos + snd dir) color dir [] b = ret (Some ps) b'"
  then have "dir \<noteq> (0, 0)"
    using DIRS_nonzero by auto
  with a have "on_board pos" "dir \<in> set DIRS" "scan b (advance pos dir) color dir [] = Some ps"
    by (auto simp: positionsToFlip_scan isValidPos_eq advance_def)
  then show "length ps \<le> 6"
    by (rule scan_length)
qed

theorem positionsToFlip_terminates_bounded_witness:
  "(1, 0) \<in> set DIRS \<and>
   isValidPos (2, 3) initial_board = ret True initial_board \<and>
   positionsToFlip (3, 3) Black (1, 0) [] initial_board = ret (Some [Some 0]) initial_board \<and>
   length [Some (0::nat)] \<le> 6 \<and>
   (\<exists>r. positionsToFlip (7, 7) White (1, 0) [Some 2] initial_board = ret r initial_board)"
proof -
  have d: "(1, 0) \<in> set DIRS"
    by (simp add: DIRS_def)
  have v: "isValidPos (2, 3) initial_board = ret True initial_board"
    by code_simp
  have p: "positionsToFlip (3, 3) Black (1, 0) [] initial_board
             = ret (Some [Some 0]) initial_board"
    by code_simp
  from positionsToFlip_terminates_bounded
         [of "(1, 0)" "(2, 3)" Black "[]" initial_board "[Some 0]" initial_board]
       positionsToFlip_terminates_bounded
         [of "(1, 0)" "(7, 7)" White "[Some 2]" initial_board "[]" initial_board]
       d v p
  show ?thesis
    by simp
qed

subsection \<open>C10: the queries change nothing\<close>

text \<open>
  C10: \<^verbatim>\<open>getPiece\<close>, \<^verbatim>\<open>isValidPos\<close>, \<^verbatim>\<open>isOccupied\<close>, \<^verbatim>\<open>isMine\<close>, \<^verbatim>\<open>validMove\<close>,
  \<^verbatim>\<open>validMoves\<close>, \<^verbatim>\<open>hasMove\<close> and \<^verbatim>\<open>isOver\<close> return or fail in the state they were
  called in, for every state and arguments; so does each ray cast of \<^verbatim>\<open>validMove\<close>,
  which collects pieces and flips none.
\<close>

theorem queries_leave_board:
  "(\<exists>r. getPiece pos b = Some (r, b)) \<and>
   (\<exists>r. isValidPos pos b = Some (r, b)) \<and>
   (\<exists>r. isOccupied pos b = Some (r, b)) \<and>
   (\<exists>r. isMine pos color b = Some (r, b)) \<and>
   (\<exists>r. validMove pos color b = Some (r, b)) \<and>
   (\<exists>r. validMoves color b = Some (r, b)) \<and>
   (\<exists>r. hasMove color b = Some (r, b)) \<and>
   (\<exists>r. isOver b = Some (r, b)) \<and>
   (\<forall>dir\<in>set DIRS. \<exists>r. positionsToFlip pos color dir acc b = Some (r, b))"
proof -
  have "\<exists>r. positionsToFlip pos color dir acc b = Some (r, b)" if "dir \<in> set DIRS" for dir
    using that DIRS_nonzero by (subst positionsToFlip_scan) (auto simp: ret_def)
  then show ?thesis
    by (simp add: getPiece_eq isValidPos_eq isOccupied_eq isMine_eq validMove_eq
        validMoves_eq hasMove_eq isOver_eq ret_def throw_def)
qed

theorem queries_leave_board_witness:
  "(\<exists>r. getPiece (8, 0) initial_board = Some (r, initial_board)) \<and>
   (\<exists>r. validMoves Black initial_board = Some (r, initial_board)) \<and>
   (1, 0) \<in> set DIRS \<and>
   (\<exists>r. positionsToFlip (3, 3) Black (1, 0) [] initial_board = Some (r, initial_board))"
proof -
  have "(1, 0) \<in> set DIRS" by (simp add: DIRS_def)
  then show ?thesis
    using queries_leave_board [of "(8, 0)" initial_board Black "[]"]
      queries_leave_board [of "(3, 3)" initial_board Black "[]"]
    by blast
qed

end
